theory Spec2Isabelle
  imports Complex_Main "HOL-Library.Sublist"
begin

section \<open>The splash-screen animation of Cerebra AI\<close>

text \<open>
  A shallow embedding of the component \<open>SplashScreen\<close>
  (\<open>src/Frontend/src/components/ChatColorStyles.tsx\<close>, second document of the file).
  The per-letter seeds are computed in binary64 arithmetic, every operation rounded to
  the nearest double, because their bounds depend on the rounding. Everywhere else
  JavaScript numbers are modelled as real numbers, with rounding, infinities and NaN
  outside the model. \<open>Math.pow\<close> is only used with the literal exponents 3 and 4 and is
  the corresponding power.
\<close>

subsection \<open>Constants of the component\<close>

definition letters :: string where
  "letters = ''CEREBRA''"

definition totalDuration :: real where
  "totalDuration = 4500"

definition fadeOutDuration :: real where
  "fadeOutDuration = 1200"

subsection \<open>Easing functions\<close>

definition easeOutQuart :: "real \<Rightarrow> real" where
  "easeOutQuart t = 1 - (1 - t) ^ 4"

definition easeInOutCubic :: "real \<Rightarrow> real" where
  "easeInOutCubic t = (if t < 0.5 then 4 * t * t * t else 1 - (-2 * t + 2) ^ 3 / 2)"

subsection \<open>Arithmetic on doubles\<close>

text \<open>
  A JavaScript number is an IEEE 754 binary64 value and every arithmetic operation
  returns the exact result rounded to the nearest double, ties to the even
  significand. \<open>fl\<close> is this rounding on the reals, for magnitudes below \<open>2^1024\<close>
  (no operation of the seed generator comes near the overflow threshold): the spacing
  of the doubles around \<open>x\<close> is \<open>quantum x\<close>, 52 binary places below the exponent of
  \<open>x\<close>, and the exponent does not go below \<open>-1022\<close> (the subnormal range).
\<close>

definition round_even :: "real \<Rightarrow> int" where
  "round_even x =
     (let f = \<lfloor>x\<rfloor>; d = x - of_int f
      in if d < 1/2 then f else if 1/2 < d then f + 1
         else if even f then f else f + 1)"

definition exponent :: "real \<Rightarrow> int" where
  "exponent x = max \<lfloor>log 2 \<bar>x\<bar>\<rfloor> (-1022)"

definition quantum :: "real \<Rightarrow> real" where
  "quantum x = 2 powi (exponent x - 52)"

definition fl :: "real \<Rightarrow> real" where
  "fl x = (if x = 0 then 0 else of_int (round_even (x / quantum x)) * quantum x)"

text \<open>The doubles are the values that rounding leaves unchanged.\<close>

definition representable :: "real \<Rightarrow> bool" where
  "representable x \<longleftrightarrow> fl x = x"

text \<open>The operators \<open>*\<close>, \<open>+\<close> and \<open>-\<close> of the source.\<close>

definition mul_d :: "real \<Rightarrow> real \<Rightarrow> real" where
  "mul_d a b = fl (a * b)"

definition add_d :: "real \<Rightarrow> real \<Rightarrow> real" where
  "add_d a b = fl (a + b)"

definition sub_d :: "real \<Rightarrow> real \<Rightarrow> real" where
  "sub_d a b = fl (a - b)"

subsection \<open>Per-letter random data\<close>

record letter =
  startX :: real
  startY :: real
  startRotation :: real
  startScale :: real
  midX :: real
  midY :: real
  finalX :: real
  finalY :: real
  pixelIntensity :: real
  glitchOffset :: real

text \<open>
  \<open>Math.random()\<close> is modelled by a stream of draws \<open>rnd\<close>: the initialiser of
  \<open>letterData\<close> calls it eight times for each letter, in the order of the fields, so
  letter \<open>index\<close> consumes the draws \<open>8 * index\<close> to \<open>8 * index + 7\<close>. The contract of
  \<open>Math.random\<close> (a double in \<open>[0, 1)\<close>) is the predicate \<open>random_source\<close>.
\<close>

definition random_source :: "(nat \<Rightarrow> real) \<Rightarrow> bool" where
  "random_source rnd = (\<forall>k. representable (rnd k) \<and> 0 \<le> rnd k \<and> rnd k < 1)"

text \<open>The source in which every draw is the largest double below 1.\<close>

definition largest_draws :: "nat \<Rightarrow> real" where
  "largest_draws k = 1 - 1 / 2 ^ 53"

definition spacing :: real where
  "spacing = -8"

text \<open>
  The literals \<open>0.5\<close>, \<open>1200\<close>, \<open>800\<close>, \<open>720\<close>, \<open>400\<close>, \<open>300\<close>, \<open>20\<close>, \<open>10\<close> and \<open>-8\<close> are
  doubles; \<open>0.1\<close>, \<open>0.3\<close>, \<open>0.8\<close> and \<open>0.2\<close> denote the nearest doubles.
\<close>

definition mkLetter :: "(nat \<Rightarrow> real) \<Rightarrow> nat \<Rightarrow> letter" where
  "mkLetter rnd index =
     \<lparr> startX = mul_d (sub_d (rnd (8 * index)) 0.5) 1200,
       startY = mul_d (sub_d (rnd (8 * index + 1)) 0.5) 800,
       startRotation = mul_d (sub_d (rnd (8 * index + 2)) 0.5) 720,
       startScale = add_d (fl 0.1) (mul_d (rnd (8 * index + 3)) (fl 0.3)),
       midX = mul_d (sub_d (rnd (8 * index + 4)) 0.5) 400,
       midY = mul_d (sub_d (rnd (8 * index + 5)) 0.5) 300,
       finalX = mul_d (real index) spacing,
       finalY = 0,
       pixelIntensity = add_d (mul_d (rnd (8 * index + 6)) (fl 0.8)) (fl 0.2),
       glitchOffset = sub_d (mul_d (rnd (8 * index + 7)) 20) 10 \<rparr>"

definition letterData :: "(nat \<Rightarrow> real) \<Rightarrow> 'a list \<Rightarrow> letter list" where
  "letterData rnd ls = map (mkLetter rnd) [0..<length ls]"

subsection \<open>Trajectory of one letter\<close>

record position =
  pos_x :: real
  pos_y :: real
  rotation :: real
  scale :: real

definition getPosition :: "letter \<Rightarrow> int \<Rightarrow> real \<Rightarrow> position" where
  "getPosition data index t =
     (let rotationEase = easeInOutCubic t;
          scaleEase = easeInOutCubic (min (t * 1.5) 1);
          xy = (if t < 0.6
                then (let localT = t / 0.6;
                          easedT = easeOutQuart localT
                      in (startX data * (1 - easedT) + midX data * easedT
                            + sin (t * pi * 3 + of_int index) * (1 - easedT) * 50,
                          startY data * (1 - easedT) + midY data * easedT
                            + cos (t * pi * 2.5 + of_int index) * (1 - easedT) * 30))
                else (let localT = (t - 0.6) / 0.4;
                          easedT = easeInOutCubic localT
                      in (midX data * (1 - easedT) + finalX data * easedT,
                          midY data * (1 - easedT) + finalY data * easedT)))
      in \<lparr> pos_x = fst xy, pos_y = snd xy,
           rotation = startRotation data * (1 - rotationEase),
           scale = startScale data * (1 - scaleEase) + 1 * scaleEase \<rparr>)"

subsection \<open>Per-letter style\<close>

text \<open>
  The values that \<open>getLetterStyle\<close> derives from the component state. \<open>progress\<close> and
  \<open>fadeOut\<close> are the React state, \<open>start\<close> is \<open>startTimeRef.current\<close> and \<open>now\<close> is the
  value returned by \<open>Date.now()\<close>. \<open>fadeOut\<close> is only ever set by the timer that
  \<open>animate\<close> creates, after \<open>startTimeRef.current\<close> has been assigned, so the
  non-null assertion of the source is a number there.
\<close>

definition pixelSize :: "letter \<Rightarrow> real \<Rightarrow> real" where
  "pixelSize data progress =
     (let pixelationProgress = min (progress * 1.8) 1
      in pixelIntensity data * (1 - easeInOutCubic pixelationProgress) * 8)"

definition opacity :: "real \<Rightarrow> bool \<Rightarrow> real \<Rightarrow> real \<Rightarrow> real" where
  "opacity progress fadeOut start now =
     (let opacity0 = min (progress * 2.5) 1
      in if fadeOut
         then opacity0 * max 0 (1 - (now - (start + totalDuration + 800)) / fadeOutDuration)
         else opacity0)"

definition glowIntensity :: "real \<Rightarrow> real" where
  "glowIntensity progress = max 0 ((progress - 0.8) / 0.2)"

definition glitchX :: "letter \<Rightarrow> int \<Rightarrow> real \<Rightarrow> real \<Rightarrow> real" where
  "glitchX data index progress now =
     (if progress < 0.4
      then sin (now * 0.01 + of_int index) * glitchOffset data * (1 - progress * 2.5)
      else 0)"

definition glitchY :: "letter \<Rightarrow> int \<Rightarrow> real \<Rightarrow> real \<Rightarrow> real" where
  "glitchY data index progress now =
     (if progress < 0.4
      then cos (now * 0.015 + of_int index) * glitchOffset data * 0.5 * (1 - progress * 2.5)
      else 0)"

text \<open>
  The numbers that \<open>getLetterStyle\<close> formats into the \<open>transform\<close> string, and the
  opacity. The class names, the text shadow and the filter are strings computed from
  \<open>pixelSize\<close> and \<open>glowIntensity\<close>; they are kept as these two numbers.
\<close>

record letter_style =
  translateX :: real
  translateY :: real
  rotate :: real
  scale_by :: real
  style_opacity :: real
  style_pixelSize :: real
  style_glow :: real

text \<open>
  \<open>letterData[index]\<close> is \<open>undefined\<close> outside the array; the first property read
  \<open>data.startX\<close> inside \<open>getPosition\<close> then throws a \<open>TypeError\<close>.
\<close>

datatype js_error = TypeError

definition lookup :: "'a list \<Rightarrow> int \<Rightarrow> 'a option" where
  "lookup xs index =
     (if 0 \<le> index \<and> index < int (length xs) then Some (xs ! nat index) else None)"

definition getLetterStyle ::
  "letter list \<Rightarrow> real \<Rightarrow> bool \<Rightarrow> real \<Rightarrow> real \<Rightarrow> int \<Rightarrow> js_error + letter_style" where
  "getLetterStyle ldata progress fadeOut start now index =
     (case lookup ldata index of
        None \<Rightarrow> Inl TypeError
      | Some data \<Rightarrow>
          (let pos = getPosition data index progress
           in Inr \<lparr> translateX = pos_x pos + glitchX data index progress now,
                    translateY = pos_y pos + glitchY data index progress now,
                    rotate = rotation pos,
                    scale_by = scale pos,
                    style_opacity = opacity progress fadeOut start now,
                    style_pixelSize = pixelSize data progress,
                    style_glow = glowIntensity progress \<rparr>))"

subsection \<open>The frame loop, the timers and the effect\<close>

text \<open>
  The component's mutable state together with the part of the browser it talks to:
  the list of requested animation-frame callbacks, the pending timeouts and the handle
  counter. The closure \<open>animate\<close> created by one run of the effect captures the value
  of \<open>fadeOut\<close> of that render, so a requested frame is stored as its handle and that
  captured value. The host's callback \<open>onComplete\<close> is modelled by the log
  \<open>completions\<close> of the instants at which it was invoked.
\<close>

datatype timeout_cb = StartFade | OnComplete

record world =
  progress :: real
  fadeOut :: bool
  startTimeRef :: "real option"
  animationRef :: "nat option"
  frameRequests :: "(nat \<times> bool) list"
  timeouts :: "(real \<times> timeout_cb) list"
  nextHandle :: nat
  mounted :: bool
  completions :: "real list"

definition requestAnimationFrame :: "bool \<Rightarrow> world \<Rightarrow> nat \<times> world" where
  "requestAnimationFrame fo w =
     (nextHandle w,
      w\<lparr>frameRequests := frameRequests w @ [(nextHandle w, fo)],
        nextHandle := nextHandle w + 1\<rparr>)"

definition cancelAnimationFrame :: "nat \<Rightarrow> world \<Rightarrow> world" where
  "cancelAnimationFrame h w =
     w\<lparr>frameRequests := filter (\<lambda>(h', _). h' \<noteq> h) (frameRequests w)\<rparr>"

definition setTimeout :: "timeout_cb \<Rightarrow> real \<Rightarrow> real \<Rightarrow> world \<Rightarrow> world" where
  "setTimeout cb delay now w = w\<lparr>timeouts := timeouts w @ [(now + delay, cb)]\<rparr>"

text \<open>The assignment \<open>animationRef.current = requestAnimationFrame(animate)\<close>.\<close>

definition request_next :: "bool \<Rightarrow> world \<Rightarrow> world" where
  "request_next fo w =
     (let (h, w') = requestAnimationFrame fo w in w'\<lparr>animationRef := Some h\<rparr>)"

text \<open>React drops a state update of a component that is no longer mounted.\<close>

definition setProgress :: "real \<Rightarrow> world \<Rightarrow> world" where
  "setProgress p w = (if mounted w then w\<lparr>progress := p\<rparr> else w)"

text \<open>
  \<open>animate\<close>, with \<open>fo\<close> the captured \<open>fadeOut\<close>. The test \<open>!startTimeRef.current\<close>
  holds for \<open>undefined\<close> and for \<open>0\<close>. Callbacks run at the instant of the frame, so the
  timeout created here is due at \<open>currentTime + 800\<close>.
\<close>

definition animate :: "bool \<Rightarrow> real \<Rightarrow> world \<Rightarrow> world" where
  "animate fo currentTime w =
     (let start = (case startTimeRef w of
                     None \<Rightarrow> currentTime
                   | Some s \<Rightarrow> if s = 0 then currentTime else s);
          w1 = w\<lparr>startTimeRef := Some start\<rparr>;
          elapsed = currentTime - start;
          newProgress = min (elapsed / totalDuration) 1;
          w2 = setProgress newProgress w1;
          w3 = (if newProgress \<ge> 1 \<and> \<not> fo
                then setTimeout StartFade 800 currentTime w2 else w2)
      in if newProgress < 1 \<or> fo then request_next fo w3 else w3)"

text \<open>The body of the effect and the cleanup function it returns.\<close>

definition effect :: "world \<Rightarrow> world" where
  "effect w = request_next (fadeOut w) w"

definition cleanup :: "world \<Rightarrow> world" where
  "cleanup w =
     (case animationRef w of
        None \<Rightarrow> w
      | Some h \<Rightarrow> if h \<noteq> 0 then cancelAnimationFrame h w else w)"

text \<open>
  \<open>setFadeOut\<close>: a changed value re-renders the component, and since \<open>fadeOut\<close> is a
  dependency of the effect, React runs the old cleanup and then the effect again.
\<close>

definition setFadeOut :: "bool \<Rightarrow> world \<Rightarrow> world" where
  "setFadeOut v w =
     (if \<not> mounted w \<or> fadeOut w = v then w
      else effect (cleanup (w\<lparr>fadeOut := v\<rparr>)))"

text \<open>
  The two timeout callbacks: the arrow function passed to the outer \<open>setTimeout\<close>, and
  \<open>onComplete\<close> itself. The state update of \<open>setFadeOut(true)\<close> is applied when the
  callback has returned, after the inner \<open>setTimeout\<close>.
\<close>

fun fire :: "timeout_cb \<Rightarrow> real \<Rightarrow> world \<Rightarrow> world" where
  "fire StartFade now w = setFadeOut True (setTimeout OnComplete fadeOutDuration now w)"
| "fire OnComplete now w = w\<lparr>completions := completions w @ [now]\<rparr>"

text \<open>
  One turn of the browser's event loop at the instant \<open>now\<close>: the timeouts that are due
  run first, in the order they were created, then the requested frame callbacks run
  with the timestamp \<open>now\<close>.
\<close>

definition runTimeouts :: "real \<Rightarrow> world \<Rightarrow> world" where
  "runTimeouts now w =
     (let due = filter (\<lambda>(d, _). d \<le> now) (timeouts w);
          w1 = w\<lparr>timeouts := filter (\<lambda>(d, _). \<not> d \<le> now) (timeouts w)\<rparr>
      in fold (\<lambda>(_, cb). fire cb now) due w1)"

definition runFrames :: "real \<Rightarrow> world \<Rightarrow> world" where
  "runFrames now w =
     (let cbs = frameRequests w;
          w1 = w\<lparr>frameRequests := []\<rparr>
      in fold (\<lambda>(_, fo). animate fo now) cbs w1)"

definition turn :: "real \<Rightarrow> world \<Rightarrow> world" where
  "turn now w = runFrames now (runTimeouts now w)"

text \<open>Mounting runs the effect once; unmounting runs the cleanup.\<close>

definition initial :: world where
  "initial = \<lparr> progress = 0, fadeOut = False, startTimeRef = None, animationRef = None,
               frameRequests = [], timeouts = [], nextHandle = 1, mounted = True,
               completions = [] \<rparr>"

definition mount :: world where
  "mount = effect initial"

definition unmount :: "world \<Rightarrow> world" where
  "unmount w = (cleanup w)\<lparr>mounted := False\<rparr>"

datatype event = Turn real | Unmount

fun step :: "event \<Rightarrow> world \<Rightarrow> world" where
  "step (Turn now) w = turn now w"
| "step Unmount w = unmount w"

definition run :: "event list \<Rightarrow> world \<Rightarrow> world" where
  "run es w = fold step es w"

subsection \<open>Phases of a session\<close>

text \<open>
  The component stores no phase; the phases of a session are recognised from its state
  and from what is pending in the browser. They are the invariants used below.
  \<open>starting\<close>: no frame has stored a start time yet (a stored \<open>0\<close> counts as none).
  \<open>entering s\<close>: the frame loop runs with start time \<open>s\<close>. \<open>holding d\<close>: the loop has
  stopped and the pause timer is due at \<open>d\<close>. \<open>fading d\<close>: \<open>fadeOut\<close> is set and the
  completion timer is due at \<open>d\<close>. \<open>completed c\<close>: \<open>onComplete\<close> ran at \<open>c\<close>.
\<close>

definition starting :: "world \<Rightarrow> bool" where
  "starting w \<longleftrightarrow>
     mounted w \<and> \<not> fadeOut w \<and> (startTimeRef w = None \<or> startTimeRef w = Some 0)
     \<and> timeouts w = [] \<and> completions w = [] \<and> 0 < nextHandle w
     \<and> (\<exists>h. h \<noteq> 0 \<and> animationRef w = Some h \<and> frameRequests w = [(h, False)])"

definition entering :: "real \<Rightarrow> world \<Rightarrow> bool" where
  "entering s w \<longleftrightarrow>
     mounted w \<and> \<not> fadeOut w \<and> startTimeRef w = Some s \<and> s \<noteq> 0
     \<and> timeouts w = [] \<and> completions w = [] \<and> 0 < nextHandle w
     \<and> (\<exists>h. h \<noteq> 0 \<and> animationRef w = Some h \<and> frameRequests w = [(h, False)])"

definition holding :: "real \<Rightarrow> world \<Rightarrow> bool" where
  "holding d w \<longleftrightarrow>
     mounted w \<and> \<not> fadeOut w \<and> timeouts w = [(d, StartFade)] \<and> completions w = []
     \<and> frameRequests w = []"

definition fading :: "real \<Rightarrow> world \<Rightarrow> bool" where
  "fading d w \<longleftrightarrow>
     mounted w \<and> fadeOut w \<and> timeouts w = [(d, OnComplete)] \<and> completions w = []
     \<and> (\<exists>h. frameRequests w = [(h, True)])"

definition completed :: "real \<Rightarrow> world \<Rightarrow> bool" where
  "completed c w \<longleftrightarrow>
     mounted w \<and> fadeOut w \<and> timeouts w = [] \<and> completions w = [c]
     \<and> (\<exists>h. frameRequests w = [(h, True)])"

definition session_phase :: "world \<Rightarrow> bool" where
  "session_phase w \<longleftrightarrow>
     starting w \<or> (\<exists>s. entering s w) \<or> (\<exists>d. holding d w) \<or> (\<exists>d. fading d w)
     \<or> (\<exists>c. completed c w)"

text \<open>
  The fade has not started before its nominal start: every pending pause timer is due
  at least \<open>totalDuration + 800\<close> after the stored start time, and once \<open>fadeOut\<close>
  is set the instant \<open>c\<close> is at least that late.
\<close>

definition fade_started_by :: "real \<Rightarrow> world \<Rightarrow> bool" where
  "fade_started_by c w \<longleftrightarrow>
     (\<forall>d. (d, StartFade) \<in> set (timeouts w) \<longrightarrow>
        (\<exists>s. startTimeRef w = Some s \<and> s \<noteq> 0 \<and> s + totalDuration + 800 \<le> d))
     \<and> (fadeOut w \<longrightarrow>
        (\<exists>s. startTimeRef w = Some s \<and> s \<noteq> 0 \<and> s + totalDuration + 800 \<le> c))"

text \<open>Nothing is pending: no requested frame and no timeout.\<close>

definition idle :: "world \<Rightarrow> bool" where
  "idle w \<longleftrightarrow> frameRequests w = [] \<and> timeouts w = []"

text \<open>
  The largest progress a frame at the instant \<open>c\<close> can have stored, given the start
  time the state holds.
\<close>

definition progress_bound :: "real \<Rightarrow> world \<Rightarrow> real" where
  "progress_bound c w =
     (case startTimeRef w of
        None \<Rightarrow> 0
      | Some s \<Rightarrow> if s = 0 then 0 else min ((c - s) / totalDuration) 1)"

section \<open>Properties of the easing functions\<close>

lemma easeOutQuart_mono:
  "0 \<le> a \<Longrightarrow> a \<le> b \<Longrightarrow> b \<le> 1 \<Longrightarrow> easeOutQuart a \<le> easeOutQuart b"
  unfolding easeOutQuart_def by (simp add: power_mono)

lemma easeOutQuart_range:
  "0 \<le> t \<Longrightarrow> t \<le> 1 \<Longrightarrow> 0 \<le> easeOutQuart t \<and> easeOutQuart t \<le> 1"
  unfolding easeOutQuart_def by (simp add: power_le_one)

lemma easeOutQuart_0: "easeOutQuart 0 = 0"
  by (simp add: easeOutQuart_def)

lemma easeOutQuart_1: "easeOutQuart 1 = 1"
  by (simp add: easeOutQuart_def)

lemma easeInOutCubic_low: "easeInOutCubic t = 4 * t ^ 3" if "t < 1/2"
  using that unfolding easeInOutCubic_def by (simp add: power3_eq_cube)

lemma easeInOutCubic_high: "easeInOutCubic t = 1 - (2 - 2 * t) ^ 3 / 2" if "1/2 \<le> t"
  using that unfolding easeInOutCubic_def by (simp add: algebra_simps)

lemma first_half_below: "4 * a ^ 3 \<le> (1/2::real)" if "0 \<le> a" "a < 1/2"
proof -
  have "a ^ 3 \<le> (1/2) ^ 3" using that by (intro power_mono) auto
  then show ?thesis by (simp add: power3_eq_cube)
qed

lemma second_half_above: "(1/2::real) \<le> 1 - (2 - 2 * b) ^ 3 / 2" if "1/2 \<le> b" "b \<le> 1"
proof -
  have "(2 - 2 * b) ^ 3 \<le> 1 ^ 3" using that by (intro power_mono) auto
  then show ?thesis by simp
qed

lemma easeInOutCubic_mono:
  assumes "0 \<le> a" "a \<le> b" "b \<le> 1"
  shows "easeInOutCubic a \<le> easeInOutCubic b"
proof (cases "b < 1/2")
  case True
  then have "a < 1/2" using assms by simp
  have "a ^ 3 \<le> b ^ 3" using assms by (intro power_mono) auto
  then show ?thesis using True \<open>a < 1/2\<close> by (simp add: easeInOutCubic_low)
next
  case False
  then have b: "1/2 \<le> b" by simp
  show ?thesis
  proof (cases "a < 1/2")
    case True
    show ?thesis
      using first_half_below[OF assms(1) True] second_half_above[OF b assms(3)] True b
      by (simp add: easeInOutCubic_low easeInOutCubic_high)
  next
    case False
    then have a: "1/2 \<le> a" by simp
    have "(2 - 2 * b) ^ 3 \<le> (2 - 2 * a) ^ 3" using assms by (intro power_mono) auto
    then show ?thesis using a b by (simp add: easeInOutCubic_high)
  qed
qed

lemma easeInOutCubic_0: "easeInOutCubic 0 = 0"
  by (simp add: easeInOutCubic_def)

lemma easeInOutCubic_1: "easeInOutCubic 1 = 1"
  by (simp add: easeInOutCubic_def)

lemma easeInOutCubic_range:
  "0 \<le> t \<Longrightarrow> t \<le> 1 \<Longrightarrow> 0 \<le> easeInOutCubic t \<and> easeInOutCubic t \<le> 1"
  using easeInOutCubic_mono[of 0 t] easeInOutCubic_mono[of t 1]
  by (simp add: easeInOutCubic_0 easeInOutCubic_1)

text \<open>
  C8. \<open>easeOutQuart t = 1 - (1 - t)^4\<close> and \<open>easeInOutCubic t\<close> is \<open>4 t^3\<close> below one
  half and \<open>1 - (-2 t + 2)^3 / 2\<close> from there on; both are monotone nondecreasing on
  \<open>[0, 1]\<close>, map \<open>[0, 1]\<close> into \<open>[0, 1]\<close>, and take \<open>0\<close> to \<open>0\<close> and \<open>1\<close> to \<open>1\<close>.
\<close>

theorem easing_functions:
  "easeOutQuart t = 1 - (1 - t) ^ 4
   \<and> easeInOutCubic t = (if t < 0.5 then 4 * t ^ 3 else 1 - (-2 * t + 2) ^ 3 / 2)
   \<and> (0 \<le> a \<and> a \<le> b \<and> b \<le> 1 \<longrightarrow>
         easeOutQuart a \<le> easeOutQuart b \<and> easeInOutCubic a \<le> easeInOutCubic b)
   \<and> (0 \<le> u \<and> u \<le> 1 \<longrightarrow>
         0 \<le> easeOutQuart u \<and> easeOutQuart u \<le> 1
         \<and> 0 \<le> easeInOutCubic u \<and> easeInOutCubic u \<le> 1)
   \<and> easeOutQuart 0 = 0 \<and> easeOutQuart 1 = 1
   \<and> easeInOutCubic 0 = 0 \<and> easeInOutCubic 1 = 1"
proof -
  have 1: "easeOutQuart t = 1 - (1 - t) ^ 4"
    by (simp add: easeOutQuart_def)
  have 2: "easeInOutCubic t = (if t < 0.5 then 4 * t ^ 3 else 1 - (-2 * t + 2) ^ 3 / 2)"
    by (simp add: easeInOutCubic_def power3_eq_cube)
  show ?thesis
    using 1 2 easeOutQuart_mono easeInOutCubic_mono easeOutQuart_range easeInOutCubic_range
      easeOutQuart_0 easeOutQuart_1 easeInOutCubic_0 easeInOutCubic_1
    by blast
qed

theorem easing_functions_witness:
  "(0::real) \<le> 1/4 \<and> (1/4::real) \<le> 3/4 \<and> (3/4::real) \<le> 1
   \<and> easeOutQuart (1/4) \<le> easeOutQuart (3/4)
   \<and> easeInOutCubic (1/4) \<le> easeInOutCubic (3/4)
   \<and> 0 \<le> easeOutQuart (3/4) \<and> easeOutQuart (3/4) \<le> 1
   \<and> 0 \<le> easeInOutCubic (3/4) \<and> easeInOutCubic (3/4) \<le> 1"
proof -
  have h: "(0::real) \<le> 1/4 \<and> (1/4::real) \<le> 3/4 \<and> (3/4::real) \<le> 1"
    and h': "(0::real) \<le> 3/4 \<and> (3/4::real) \<le> 1"
    by simp_all
  show ?thesis
    using h h' easing_functions [where t = 0 and a = "1/4" and b = "3/4" and u = "3/4"]
    by blast
qed

section \<open>Properties of the rounding\<close>

lemma round_even_of_int: "round_even (of_int n) = n"
  by (simp add: round_even_def)

lemma round_even_between: "\<lfloor>x\<rfloor> \<le> round_even x \<and> round_even x \<le> \<lfloor>x\<rfloor> + 1"
  by (simp add: round_even_def Let_def)

lemma round_even_mono:
  assumes "x \<le> y"
  shows "round_even x \<le> round_even y"
proof (cases "\<lfloor>x\<rfloor> = \<lfloor>y\<rfloor>")
  case True
  then show ?thesis using assms by (auto simp add: round_even_def Let_def)
next
  case False
  then have "\<lfloor>x\<rfloor> + 1 \<le> \<lfloor>y\<rfloor>" using floor_mono[OF assms] by simp
  then show ?thesis
    using round_even_between[of x] round_even_between[of y] by linarith
qed

lemma round_even_uminus: "round_even (- x) = - round_even x"
proof (cases "x \<in> \<int>")
  case True
  then obtain n where "x = of_int n" by (auto elim: Ints_cases)
  then show ?thesis using round_even_of_int[of n] round_even_of_int[of "-n"] by simp
next
  case False
  then have "x \<noteq> of_int \<lfloor>x\<rfloor>"
    by (metis Ints_of_int)
  then have f: "\<lfloor>- x\<rfloor> = - \<lfloor>x\<rfloor> - 1"
    by (simp add: floor_minus ceiling_altdef)
  show ?thesis
    unfolding round_even_def Let_def f by (auto simp add: field_simps)
qed

lemma exponent_uminus: "exponent (- x) = exponent x"
  by (simp add: exponent_def)

lemma quantum_pos: "0 < quantum x"
  by (simp add: quantum_def)

lemma fl_uminus: "fl (- x) = - fl x"
  by (simp add: fl_def quantum_def exponent_uminus round_even_uminus)

lemma binade:
  assumes "x \<noteq> 0"
  shows "2 powi \<lfloor>log 2 \<bar>x\<bar>\<rfloor> \<le> \<bar>x\<bar> \<and> \<bar>x\<bar> < 2 powi (\<lfloor>log 2 \<bar>x\<bar>\<rfloor> + 1)"
proof -
  have "2 powr (real_of_int \<lfloor>log 2 \<bar>x\<bar>\<rfloor>) \<le> \<bar>x\<bar> \<and> \<bar>x\<bar> < 2 powr (real_of_int (\<lfloor>log 2 \<bar>x\<bar>\<rfloor> + 1))"
    using floor_log_eq_powr_iff[of "\<bar>x\<bar>" 2 "\<lfloor>log 2 \<bar>x\<bar>\<rfloor>"] assms by simp
  then show ?thesis by (simp only: powr_real_of_int' [of 2, simplified])
qed

lemma exponent_upper: "x \<noteq> 0 \<Longrightarrow> \<bar>x\<bar> < 2 powi (exponent x + 1)"
proof -
  assume x: "x \<noteq> 0"
  have "(2::real) powi (\<lfloor>log 2 \<bar>x\<bar>\<rfloor> + 1) \<le> 2 powi (exponent x + 1)"
    by (intro power_int_increasing) (simp_all add: exponent_def)
  then show ?thesis using binade[OF x] by linarith
qed

lemma exponent_lower: "x \<noteq> 0 \<Longrightarrow> -1022 < exponent x \<Longrightarrow> 2 powi exponent x \<le> \<bar>x\<bar>"
  using binade[of x] by (simp add: exponent_def max_def split: if_splits)

lemma exponent_mono: "x \<noteq> 0 \<Longrightarrow> \<bar>x\<bar> \<le> \<bar>y\<bar> \<Longrightarrow> exponent x \<le> exponent y"
proof -
  assume "x \<noteq> 0" "\<bar>x\<bar> \<le> \<bar>y\<bar>"
  then have "log 2 \<bar>x\<bar> \<le> log 2 \<bar>y\<bar>" by simp
  then have "\<lfloor>log 2 \<bar>x\<bar>\<rfloor> \<le> \<lfloor>log 2 \<bar>y\<bar>\<rfloor>" by (rule floor_mono)
  then show ?thesis by (simp add: exponent_def)
qed

lemma exponent_eq:
  assumes "2 powi e \<le> \<bar>x\<bar>" "\<bar>x\<bar> < 2 powi (e + 1)" "-1022 \<le> e"
  shows "exponent x = e"
proof -
  have x: "0 < \<bar>x\<bar>" using assms(1) zero_less_power_int[of "2::real" e] by linarith
  have "2 powr (real_of_int e) \<le> \<bar>x\<bar> \<and> \<bar>x\<bar> < 2 powr (real_of_int (e + 1))"
    using assms(1,2) by (simp only: powr_real_of_int' [of 2, simplified])
  then have "\<lfloor>log 2 \<bar>x\<bar>\<rfloor> = e"
    using floor_log_eq_powr_iff[of "\<bar>x\<bar>" 2 e] x by simp
  then show ?thesis using assms(3) by (simp add: exponent_def)
qed


lemma fl_eval:
  assumes "2 powi e \<le> \<bar>x\<bar>" "\<bar>x\<bar> < 2 powi (e + 1)" "-1022 \<le> e"
  shows "fl x = of_int (round_even (x / 2 powi (e - 52))) * 2 powi (e - 52)"
proof -
  have "0 < \<bar>x\<bar>" using assms(1) zero_less_power_int[of "2::real" e] by linarith
  then have "x \<noteq> 0" by simp
  then show ?thesis using exponent_eq[OF assms] by (simp add: fl_def quantum_def)
qed

lemma fl_nonneg: "0 \<le> x \<Longrightarrow> 0 \<le> fl x"
proof -
  assume "0 \<le> x"
  then have "0 \<le> x / quantum x" using quantum_pos[of x] by simp
  then have "round_even 0 \<le> round_even (x / quantum x)" by (rule round_even_mono)
  then have "0 \<le> round_even (x / quantum x)" using round_even_of_int[of 0] by simp
  then show ?thesis using quantum_pos[of x] by (simp add: fl_def)
qed

lemma fl_binade_upper:
  assumes "0 < x"
  shows "fl x \<le> 2 powi (exponent x + 1)"
proof -
  have q: "2 powi (exponent x + 1) = 2 ^ 53 * quantum x"
    by (simp add: quantum_def power_int_diff power_int_add)
  have "x < 2 ^ 53 * quantum x"
    using exponent_upper[of x] assms unfolding q by simp
  then have "x / quantum x \<le> of_int (2 ^ 53)"
    using quantum_pos[of x] by (simp add: field_simps)
  then have "round_even (x / quantum x) \<le> round_even (of_int (2 ^ 53))"
    by (rule round_even_mono)
  then have "round_even (x / quantum x) \<le> 2 ^ 53"
    unfolding round_even_of_int .
  then have "of_int (round_even (x / quantum x)) \<le> (2 ^ 53 :: real)"
    by (metis of_int_le_iff of_int_numeral of_int_power)
  then have "of_int (round_even (x / quantum x)) * quantum x \<le> 2 ^ 53 * quantum x"
    using quantum_pos[of x] by (simp only: mult_le_cancel_right_pos)
  then show ?thesis using assms unfolding q by (simp add: fl_def)
qed

lemma fl_binade_lower:
  assumes "0 < x" "-1022 < exponent x"
  shows "2 powi exponent x \<le> fl x"
proof -
  have q: "2 powi exponent x = 2 ^ 52 * quantum x"
    by (simp add: quantum_def power_int_diff)
  have "2 ^ 52 * quantum x \<le> x"
    using exponent_lower[of x] assms unfolding q by simp
  then have "of_int (2 ^ 52) \<le> x / quantum x"
    using quantum_pos[of x] by (simp add: field_simps)
  then have "round_even (of_int (2 ^ 52)) \<le> round_even (x / quantum x)"
    by (rule round_even_mono)
  then have "2 ^ 52 \<le> round_even (x / quantum x)"
    unfolding round_even_of_int .
  then have "(2 ^ 52 :: real) \<le> of_int (round_even (x / quantum x))"
    by (metis of_int_le_iff of_int_numeral of_int_power)
  then have "2 ^ 52 * quantum x \<le> of_int (round_even (x / quantum x)) * quantum x"
    using quantum_pos[of x] by (simp only: mult_le_cancel_right_pos)
  then show ?thesis using assms unfolding q by (simp add: fl_def)
qed

lemma fl_mono_pos:
  assumes "0 < x" "x \<le> y"
  shows "fl x \<le> fl y"
proof (cases "exponent x = exponent y")
  case True
  then have q: "quantum y = quantum x" by (simp add: quantum_def)
  have "x / quantum x \<le> y / quantum x"
    using assms quantum_pos[of x] by (simp add: divide_right_mono)
  then have "round_even (x / quantum x) \<le> round_even (y / quantum x)"
    by (rule round_even_mono)
  then have "of_int (round_even (x / quantum x)) * quantum x
      \<le> of_int (round_even (y / quantum x)) * quantum x"
    using quantum_pos[of x] by simp
  then show ?thesis using assms by (simp add: fl_def q)
next
  case False
  have "exponent x \<le> exponent y" using assms by (intro exponent_mono) simp_all
  then have lt: "exponent x + 1 \<le> exponent y" using False by simp
  have "-1022 \<le> exponent x" by (simp add: exponent_def)
  then have "-1022 < exponent y" using lt by simp
  then have "2 powi exponent y \<le> fl y" using assms by (intro fl_binade_lower) simp_all
  moreover have "fl x \<le> 2 powi (exponent x + 1)" using assms by (intro fl_binade_upper)
  moreover have "(2::real) powi (exponent x + 1) \<le> 2 powi exponent y"
    using lt by (intro power_int_increasing) simp_all
  ultimately show ?thesis by linarith
qed

lemma fl_mono:
  assumes "x \<le> y"
  shows "fl x \<le> fl y"
proof -
  consider "0 < x" | "x \<le> 0" "0 \<le> y" | "y < 0" by linarith
  then show ?thesis
  proof cases
    case 1
    then show ?thesis using assms by (rule fl_mono_pos)
  next
    case 2
    have "0 \<le> fl (- x)" using 2 by (intro fl_nonneg) simp
    then have "fl x \<le> 0" by (simp add: fl_uminus)
    then show ?thesis using fl_nonneg[OF 2(2)] by linarith
  next
    case 3
    have "fl (- y) \<le> fl (- x)" using 3 assms by (intro fl_mono_pos) simp_all
    then show ?thesis by (simp add: fl_uminus)
  qed
qed

lemma fl_literal_08: "fl 0.8 = 3602879701896397 / 2 ^ 52"
  by (subst fl_eval[where e = "-1"]) (simp_all add: round_even_def Let_def)

lemma fl_literal_02: "fl 0.2 = 3602879701896397 / 2 ^ 54"
  by (subst fl_eval[where e = "-3"]) (simp_all add: round_even_def Let_def)

lemma fl_literal_01: "fl 0.1 = 7205759403792794 / 2 ^ 56"
  by (subst fl_eval[where e = "-4"]) (simp_all add: round_even_def Let_def)

lemma fl_literal_03: "fl 0.3 = 5404319552844595 / 2 ^ 54"
  by (subst fl_eval[where e = "-2"]) (simp_all add: round_even_def Let_def)

lemma fl_half: "fl (1/2) = 1/2"
  by (subst fl_eval[where e = "-1"]) (simp_all add: round_even_def Let_def)

lemma fl_1: "fl 1 = 1"
  by (subst fl_eval[where e = "0"]) (simp_all add: round_even_def Let_def)

lemma fl_10: "fl 10 = 10"
  by (subst fl_eval[where e = "3"]) (simp_all add: round_even_def Let_def)

lemma fl_20: "fl 20 = 20"
  by (subst fl_eval[where e = "4"]) (simp_all add: round_even_def Let_def)

lemma fl_150: "fl 150 = 150"
  by (subst fl_eval[where e = "7"]) (simp_all add: round_even_def Let_def)

lemma fl_200: "fl 200 = 200"
  by (subst fl_eval[where e = "7"]) (simp_all add: round_even_def Let_def)

lemma fl_360: "fl 360 = 360"
  by (subst fl_eval[where e = "8"]) (simp_all add: round_even_def Let_def)

lemma fl_400: "fl 400 = 400"
  by (subst fl_eval[where e = "8"]) (simp_all add: round_even_def Let_def)

lemma fl_600: "fl 600 = 600"
  by (subst fl_eval[where e = "9"]) (simp_all add: round_even_def Let_def)

lemma largest_below_one: "representable (1 - 1 / 2 ^ 53)"
  unfolding representable_def
  by (subst fl_eval[where e = "-1"]) (simp_all add: round_even_def Let_def)

lemma below_one:
  assumes "representable r" "r < 1"
  shows "r \<le> 1 - 1 / 2 ^ 53"
proof (cases "r < 1/2")
  case True
  then show ?thesis by simp
next
  case False
  define p :: real where "p = 2 ^ 53"
  define n where "n = round_even (r * p)"
  have p: "0 < p" "p = of_int (2 ^ 53)" by (simp_all add: p_def)
  have q: "(2::real) powi (-1 - 52) = 1 / p" by (simp add: p_def power_int_minus_divide)
  have "2 powi (-1) \<le> \<bar>r\<bar>" "\<bar>r\<bar> < 2 powi (-1 + 1)" using False assms(2) by simp_all
  then have "fl r = of_int (round_even (r / 2 powi (-1 - 52))) * 2 powi (-1 - 52)"
    by (rule fl_eval) simp
  then have "r = of_int n / p"
    using assms(1) unfolding q representable_def n_def by simp
  then have r: "r * p = of_int n" using p(1) by simp
  then have "of_int n < p" using assms(2) p(1) by (metis mult_less_cancel_right_pos mult_1)
  then have "n < 2 ^ 53" unfolding p(2) by (simp only: of_int_less_iff)
  then have "n \<le> 2 ^ 53 - 1" by linarith
  then have "real_of_int n \<le> of_int (2 ^ 53 - 1)" by (simp only: of_int_le_iff)
  moreover have "real_of_int (2 ^ 53 - 1) = p - 1" by (simp add: p_def)
  ultimately have "r * p \<le> p - 1" using r by linarith
  then have "r * p \<le> (1 - 1 / p) * p" using p(1) by (simp add: left_diff_distrib)
  then have "r \<le> 1 - 1 / p" using p(1) by (simp only: mult_le_cancel_right_pos)
  then show ?thesis by (simp only: p_def)
qed

lemma representable_of_int:
  assumes "\<bar>m\<bar> < 2 ^ 53"
  shows "representable (of_int m)"
proof (cases "m = 0")
  case True
  then show ?thesis by (simp add: representable_def fl_def)
next
  case False
  let ?x = "real_of_int m"
  let ?E = "\<lfloor>log 2 \<bar>?x\<bar>\<rfloor>"
  have x: "?x \<noteq> 0" using False by simp
  have "1 \<le> \<bar>m\<bar>" using False by simp
  then have "real_of_int 1 \<le> real_of_int \<bar>m\<bar>" by (simp only: of_int_le_iff)
  then have one: "1 \<le> \<bar>?x\<bar>" by simp
  have "0 \<le> log 2 \<bar>?x\<bar>" using one by simp
  then have E0: "0 \<le> ?E" by simp
  have "real_of_int \<bar>m\<bar> < real_of_int (2 ^ 53)" using assms by (simp only: of_int_less_iff)
  then have "\<bar>?x\<bar> < 2 powi 53" by simp
  then have "(2::real) powi ?E < 2 powi 53" using binade[OF x] by linarith
  then have "?E < 53" by (intro power_int_le_imp_less_exp[of "2::real"]) simp_all
  then have E52: "?E \<le> 52" by simp
  have e: "exponent ?x = ?E" using E0 by (simp add: exponent_def)
  define k where "k = nat (52 - ?E)"
  have "quantum ?x = 1 / 2 ^ k"
    using E52 by (simp add: quantum_def e power_int_def power_one_over k_def)
  then have q: "quantum ?x = 1 / of_int (2 ^ k)" by simp
  have "?x / quantum ?x = of_int (m * 2 ^ k)" unfolding q by simp
  then have "round_even (?x / quantum ?x) = m * 2 ^ k"
    by (simp only: round_even_of_int)
  then show ?thesis
    using x unfolding representable_def fl_def q by simp
qed

section \<open>Properties of the seeds\<close>

lemma fl_between:
  "a \<le> x \<Longrightarrow> x \<le> b \<Longrightarrow> fl a = a \<Longrightarrow> fl b = b \<Longrightarrow> a \<le> fl x \<and> fl x \<le> b"
  using fl_mono[of a x] fl_mono[of x b] by simp

lemma centred:
  assumes "0 \<le> r" "r < 1"
  shows "- (1/2) \<le> sub_d r 0.5 \<and> sub_d r 0.5 \<le> 1/2"
proof -
  have "fl (- (1/2)) = - (1/2)" using fl_half by (simp only: fl_uminus)
  then show ?thesis
    unfolding sub_d_def using assms fl_half by (intro fl_between) simp_all
qed

lemma scaled:
  assumes "- (1/2) \<le> c" "c \<le> 1/2" "0 \<le> k" "fl (k / 2) = k / 2"
  shows "- (k / 2) \<le> mul_d c k \<and> mul_d c k \<le> k / 2"
proof -
  have n: "fl (- (k / 2)) = - (k / 2)" using assms(4) by (simp only: fl_uminus)
  have "c * k \<le> (1/2) * k" using assms(2,3) by (rule mult_right_mono)
  moreover have "- (1/2) * k \<le> c * k" using assms(1,3) by (rule mult_right_mono)
  ultimately show ?thesis
    unfolding mul_d_def using n assms(4) by (intro fl_between) simp_all
qed

lemma centred_scaled:
  assumes "0 \<le> r" "r < 1" "0 \<le> k" "fl (k / 2) = k / 2"
  shows "- (k / 2) \<le> mul_d (sub_d r 0.5) k \<and> mul_d (sub_d r 0.5) k \<le> k / 2"
  using centred[OF assms(1,2)] assms(3,4) by (intro scaled) simp_all

lemma glitch_range:
  assumes "0 \<le> r" "r < 1"
  shows "-10 \<le> sub_d (mul_d r 20) 10 \<and> sub_d (mul_d r 20) 10 \<le> 10"
proof -
  have z: "fl 0 = 0" by (simp add: fl_def)
  have "0 \<le> mul_d r 20 \<and> mul_d r 20 \<le> 20"
    unfolding mul_d_def using assms z fl_20 by (intro fl_between) simp_all
  moreover have "fl (-10) = -10" using fl_10 by (simp only: fl_uminus)
  ultimately show ?thesis
    unfolding sub_d_def using fl_10 by (intro fl_between) simp_all
qed

lemma fl_literal_02_fixed: "fl (3602879701896397 / 2 ^ 54) = 3602879701896397 / 2 ^ 54"
  by (subst fl_eval[where e = "-3"]) (simp_all add: round_even_def Let_def)

lemma fl_literal_01_fixed: "fl (7205759403792794 / 2 ^ 56) = 7205759403792794 / 2 ^ 56"
  by (subst fl_eval[where e = "-4"]) (simp_all add: round_even_def Let_def)

lemma largest_product_08:
  "fl ((1 - 1 / 2 ^ 53) * (3602879701896397 / 2 ^ 52)) = 7205759403792793 / 2 ^ 53"
  by (subst fl_eval[where e = "-1"]) (simp_all add: round_even_def Let_def)

lemma largest_sum_08_02:
  "fl (7205759403792793 / 2 ^ 53 + 3602879701896397 / 2 ^ 54) = 1"
  by (subst fl_eval[where e = "-1"]) (simp_all add: round_even_def Let_def)

lemma largest_product_03:
  "fl ((1 - 1 / 2 ^ 53) * (5404319552844595 / 2 ^ 54)) = 5404319552844594 / 2 ^ 54"
  by (subst fl_eval[where e = "-2"]) (simp_all add: round_even_def Let_def)

lemma largest_sum_01_03:
  "fl (7205759403792794 / 2 ^ 56 + 5404319552844594 / 2 ^ 54) = 7205759403792792 / 2 ^ 54"
  by (subst fl_eval[where e = "-2"]) (simp_all add: round_even_def Let_def)

lemma pixel_range:
  assumes "representable r" "0 \<le> r" "r < 1"
  shows "0.2 \<le> add_d (mul_d r (fl 0.8)) (fl 0.2) \<and> add_d (mul_d r (fl 0.8)) (fl 0.2) \<le> 1"
proof -
  let ?c = "3602879701896397 / 2 ^ 52 :: real"
  let ?d = "3602879701896397 / 2 ^ 54 :: real"
  have r: "r \<le> 1 - 1 / 2 ^ 53" using assms(1,3) by (rule below_one)
  have c: "0 \<le> ?c" by simp
  have "0 \<le> r * ?c" using assms(2) c by (rule mult_nonneg_nonneg)
  then have lo: "0 \<le> fl (r * ?c)" by (rule fl_nonneg)
  have "r * ?c \<le> (1 - 1 / 2 ^ 53) * ?c" using r c by (rule mult_right_mono)
  then have "fl (r * ?c) \<le> fl ((1 - 1 / 2 ^ 53) * ?c)" by (rule fl_mono)
  then have hi: "fl (r * ?c) \<le> 7205759403792793 / 2 ^ 53" by (simp only: largest_product_08)
  have "fl (fl (r * ?c) + ?d) \<le> fl (7205759403792793 / 2 ^ 53 + ?d)"
    using hi by (intro fl_mono) simp
  then have 1: "fl (fl (r * ?c) + ?d) \<le> 1" by (simp only: largest_sum_08_02)
  have "fl ?d \<le> fl (fl (r * ?c) + ?d)" using lo by (intro fl_mono) simp
  then have "?d \<le> fl (fl (r * ?c) + ?d)" by (simp only: fl_literal_02_fixed)
  moreover have "0.2 \<le> ?d" by simp
  ultimately have 2: "0.2 \<le> fl (fl (r * ?c) + ?d)" by linarith
  show ?thesis
    unfolding add_d_def mul_d_def fl_literal_08 fl_literal_02 using 1 2 by simp
qed

lemma scale_range:
  assumes "representable r" "0 \<le> r" "r < 1"
  shows "0.1 \<le> add_d (fl 0.1) (mul_d r (fl 0.3)) \<and> add_d (fl 0.1) (mul_d r (fl 0.3)) < 0.4"
proof -
  let ?c = "5404319552844595 / 2 ^ 54 :: real"
  let ?d = "7205759403792794 / 2 ^ 56 :: real"
  have r: "r \<le> 1 - 1 / 2 ^ 53" using assms(1,3) by (rule below_one)
  have c: "0 \<le> ?c" by simp
  have "0 \<le> r * ?c" using assms(2) c by (rule mult_nonneg_nonneg)
  then have lo: "0 \<le> fl (r * ?c)" by (rule fl_nonneg)
  have "r * ?c \<le> (1 - 1 / 2 ^ 53) * ?c" using r c by (rule mult_right_mono)
  then have "fl (r * ?c) \<le> fl ((1 - 1 / 2 ^ 53) * ?c)" by (rule fl_mono)
  then have hi: "fl (r * ?c) \<le> 5404319552844594 / 2 ^ 54" by (simp only: largest_product_03)
  have "fl (?d + fl (r * ?c)) \<le> fl (?d + 5404319552844594 / 2 ^ 54)"
    using hi by (intro fl_mono) simp
  then have "fl (?d + fl (r * ?c)) \<le> 7205759403792792 / 2 ^ 54" by (simp only: largest_sum_01_03)
  moreover have "7205759403792792 / 2 ^ 54 < (0.4::real)" by simp
  ultimately have 1: "fl (?d + fl (r * ?c)) < 0.4" by linarith
  have "fl ?d \<le> fl (?d + fl (r * ?c))" using lo by (intro fl_mono) simp
  then have "?d \<le> fl (?d + fl (r * ?c))" by (simp only: fl_literal_01_fixed)
  moreover have "0.1 \<le> ?d" by simp
  ultimately have 2: "0.1 \<le> fl (?d + fl (r * ?c))" by linarith
  show ?thesis
    unfolding add_d_def mul_d_def fl_literal_01 fl_literal_03 using 1 2 by simp
qed

lemma index_product_exact:
  assumes "i < 2 ^ 32"
  shows "mul_d (real i) (-8) = real i * (-8)"
proof -
  have "int i < 2 ^ 32" using assms by (metis of_nat_less_iff of_nat_numeral of_nat_power)
  then have "\<bar>- 8 * int i\<bar> < 2 ^ 53" by simp
  then have "representable (of_int (- 8 * int i))" by (rule representable_of_int)
  then show ?thesis by (simp add: representable_def mul_d_def mult.commute)
qed

lemma pixel_at_largest_draw:
  "add_d (mul_d (1 - 1 / 2 ^ 53) (fl 0.8)) (fl 0.2) = 1"
  unfolding add_d_def mul_d_def fl_literal_08 fl_literal_02
  by (simp only: largest_product_08 largest_sum_08_02)

lemma largest_draws_source: "random_source largest_draws"
proof -
  have "fl (1 - 1 / 2 ^ 53) = 1 - 1 / 2 ^ 53"
    using largest_below_one by (simp only: representable_def)
  then show ?thesis
    by (simp add: random_source_def largest_draws_def representable_def)
qed

text \<open>
  C7, as the specification states it: \<open>pixelIntensity\<close> lies in \<open>[0.2, 1.0)\<close>. It fails
  for the first letter when \<open>Math.random()\<close> returns the largest double below 1:
  the product with \<open>0.8\<close> rounds to \<open>7205759403792793 / 2^53\<close>, the sum with \<open>0.2\<close> is
  \<open>1 - 2^-54\<close>, halfway between two doubles, and rounds to \<open>1\<close>.
\<close>

theorem pixelIntensity_reaches_one:
  "random_source largest_draws \<and> 0 < length letters
   \<and> pixelIntensity (letterData largest_draws letters ! 0) = 1
   \<and> \<not> pixelIntensity (letterData largest_draws letters ! 0) < 1.0"
proof -
  have "pixelIntensity (letterData largest_draws letters ! 0) = 1"
    using pixel_at_largest_draw
    by (simp add: letterData_def letters_def mkLetter_def largest_draws_def)
  then show ?thesis
    using largest_draws_source by (simp add: letters_def)
qed

text \<open>
  C7, amended: for every number of letters (below \<open>2^32\<close>, the bound on the length of
  an array) and every index below it, the generated seed has \<open>startX\<close> in
  \<open>[-600, 600]\<close>, \<open>startY\<close> in \<open>[-400, 400]\<close>, \<open>startRotation\<close> in \<open>[-360, 360]\<close>,
  \<open>startScale\<close> in \<open>[0.1, 0.4)\<close>, \<open>midX\<close> in \<open>[-200, 200]\<close>, \<open>midY\<close> in \<open>[-150, 150]\<close>,
  \<open>pixelIntensity\<close> in the closed interval \<open>[0.2, 1.0]\<close>, \<open>glitchOffset\<close> in
  \<open>[-10, 10]\<close>, and \<open>finalX = index * spacing\<close> with a negative spacing and
  \<open>finalY = 0\<close>.
\<close>

theorem seed_ranges_closed:
  assumes "random_source rnd" "i < length ls" "length ls < 2 ^ 32"
  shows "(let d = letterData rnd ls ! i in
           -600 \<le> startX d \<and> startX d \<le> 600
         \<and> -400 \<le> startY d \<and> startY d \<le> 400
         \<and> -360 \<le> startRotation d \<and> startRotation d \<le> 360
         \<and> 0.1 \<le> startScale d \<and> startScale d < 0.4
         \<and> -200 \<le> midX d \<and> midX d \<le> 200
         \<and> -150 \<le> midY d \<and> midY d \<le> 150
         \<and> 0.2 \<le> pixelIntensity d \<and> pixelIntensity d \<le> 1.0
         \<and> -10 \<le> glitchOffset d \<and> glitchOffset d \<le> 10
         \<and> finalX d = real i * spacing \<and> spacing < 0 \<and> finalY d = 0)"
proof -
  have r: "\<And>k. representable (rnd k)" "\<And>k. 0 \<le> rnd k" "\<And>k. rnd k < 1"
    using assms(1) by (auto simp: random_source_def)
  have d: "letterData rnd ls ! i = mkLetter rnd i"
    using assms(2) by (simp add: letterData_def)
  have "i < 2 ^ 32" using assms(2,3) by linarith
  then have fx: "mul_d (real i) (-8) = real i * (-8)" by (rule index_product_exact)
  have sx: "- (1200 / 2) \<le> mul_d (sub_d (rnd (8 * i)) 0.5) 1200
      \<and> mul_d (sub_d (rnd (8 * i)) 0.5) 1200 \<le> 1200 / 2"
    using r(2,3) fl_600 by (intro centred_scaled) simp_all
  have sy: "- (800 / 2) \<le> mul_d (sub_d (rnd (8 * i + 1)) 0.5) 800
      \<and> mul_d (sub_d (rnd (8 * i + 1)) 0.5) 800 \<le> 800 / 2"
    using r(2,3) fl_400 by (intro centred_scaled) simp_all
  have sr: "- (720 / 2) \<le> mul_d (sub_d (rnd (8 * i + 2)) 0.5) 720
      \<and> mul_d (sub_d (rnd (8 * i + 2)) 0.5) 720 \<le> 720 / 2"
    using r(2,3) fl_360 by (intro centred_scaled) simp_all
  have mx: "- (400 / 2) \<le> mul_d (sub_d (rnd (8 * i + 4)) 0.5) 400
      \<and> mul_d (sub_d (rnd (8 * i + 4)) 0.5) 400 \<le> 400 / 2"
    using r(2,3) fl_200 by (intro centred_scaled) simp_all
  have my: "- (300 / 2) \<le> mul_d (sub_d (rnd (8 * i + 5)) 0.5) 300
      \<and> mul_d (sub_d (rnd (8 * i + 5)) 0.5) 300 \<le> 300 / 2"
    using r(2,3) fl_150 by (intro centred_scaled) simp_all
  note sc = scale_range[OF r, of "8 * i + 3"]
  note px = pixel_range[OF r, of "8 * i + 6"]
  note gl = glitch_range[OF r(2,3), of "8 * i + 7"]
  show ?thesis
    unfolding d Let_def mkLetter_def
    using sx sy sr mx my sc px gl fx by (simp add: spacing_def)
qed

theorem seed_ranges_closed_witness:
  "random_source largest_draws \<and> 3 < length letters \<and> length letters < 2 ^ 32
   \<and> startX (letterData largest_draws letters ! 3) \<le> 600
   \<and> startScale (letterData largest_draws letters ! 3) < 0.4
   \<and> pixelIntensity (letterData largest_draws letters ! 3) \<le> 1.0
   \<and> finalX (letterData largest_draws letters ! 3) = 3 * spacing"
proof -
  have h1: "random_source largest_draws" by (rule largest_draws_source)
  have h2: "3 < length letters" by (simp add: letters_def)
  have h3: "length letters < 2 ^ 32" by (simp add: letters_def)
  show ?thesis using h1 h2 h3 seed_ranges_closed [OF h1 h2 h3] by (simp add: Let_def)
qed

section \<open>Properties of the trajectory and of the style\<close>

text \<open>
  C3. For every seed and every index, the trajectory at \<open>t = 1\<close> is at
  \<open>(finalX, finalY)\<close>, with rotation \<open>0\<close> and scale \<open>1\<close>.
\<close>

theorem convergence_at_one:
  "pos_x (getPosition data index 1) = finalX data
   \<and> pos_y (getPosition data index 1) = finalY data
   \<and> rotation (getPosition data index 1) = 0
   \<and> scale (getPosition data index 1) = 1"
  by (simp add: getPosition_def easeInOutCubic_def)

text \<open>
  C6. The glitch offsets are \<open>sin (now * 0.01 + index) * glitchOffset * (1 - t / 0.4)\<close>
  and \<open>cos (now * 0.015 + index) * glitchOffset * 0.5 * (1 - t / 0.4)\<close> while \<open>t < 0.4\<close>
  and zero from there on; in particular both are zero at \<open>t = 0.5\<close>, for every seed,
  index and clock value.
\<close>

theorem glitch_window:
  "glitchX data index t now =
      (if t < 0.4
       then sin (now * 0.01 + of_int index) * glitchOffset data * (1 - t / 0.4) else 0)
   \<and> glitchY data index t now =
      (if t < 0.4
       then cos (now * 0.015 + of_int index) * glitchOffset data * 0.5 * (1 - t / 0.4) else 0)
   \<and> glitchX data index 0.5 now = 0 \<and> glitchY data index 0.5 now = 0"
  by (simp add: glitchX_def glitchY_def)

text \<open>
  C9. For an index outside \<open>[0, elementCount)\<close> the per-letter query does not return a
  style and does not clamp the index: it fails with an error (the \<open>TypeError\<close> raised by
  reading a property of the missing array element).
\<close>

theorem index_out_of_range:
  "\<not> (0 \<le> index \<and> index < int (length ldata)) \<Longrightarrow>
     getLetterStyle ldata t fo start now index = Inl TypeError"
  by (auto simp add: getLetterStyle_def lookup_def)

theorem index_out_of_range_witness:
  "\<not> (0 \<le> (7::int) \<and> (7::int) < int (length (letterData (\<lambda>k. 0) letters)))
   \<and> getLetterStyle (letterData (\<lambda>k. 0) letters) 0 False 0 0 7 = Inl TypeError"
proof -
  have h: "\<not> (0 \<le> (7::int) \<and> (7::int) < int (length (letterData (\<lambda>k. 0) letters)))"
    by (simp add: letterData_def letters_def)
  show ?thesis using h index_out_of_range [OF h] by blast
qed

lemma index_in_range:
  "0 \<le> index \<Longrightarrow> index < int (length ldata) \<Longrightarrow>
     \<exists>s. getLetterStyle ldata t fo start now index = Inr s"
  by (auto simp add: getLetterStyle_def lookup_def Let_def)

lemma opacity_nonneg: "0 \<le> t \<Longrightarrow> 0 \<le> opacity t fo start now"
  by (simp add: opacity_def Let_def)

lemma opacity_bounds:
  assumes "0 \<le> t" "t \<le> 1" "fo \<longrightarrow> start + totalDuration + 800 \<le> now"
  shows "0 \<le> opacity t fo start now \<and> opacity t fo start now \<le> 1"
proof -
  let ?o = "min (t * 2.5) 1"
  let ?f = "max 0 (1 - (now - (start + totalDuration + 800)) / fadeOutDuration)"
  have o: "0 \<le> ?o" "?o \<le> 1" using assms by simp_all
  show ?thesis
  proof (cases fo)
    case False
    then show ?thesis using o by (simp add: opacity_def)
  next
    case True
    then have "0 \<le> (now - (start + totalDuration + 800)) / fadeOutDuration"
      using assms by (simp add: fadeOutDuration_def)
    then have f: "0 \<le> ?f" "?f \<le> 1" by simp_all
    have "0 \<le> ?o * ?f" using o f by (intro mult_nonneg_nonneg)
    moreover have "?o * ?f \<le> 1" using o f by (intro mult_le_one)
    ultimately show ?thesis using True by (simp add: opacity_def Let_def)
  qed
qed

lemma first_segment_x:
  "((\<lambda>t. startX data * (1 - easeOutQuart (t / 0.6)) + midX data * easeOutQuart (t / 0.6)
          + sin (t * pi * 3 + of_int index) * (1 - easeOutQuart (t / 0.6)) * 50)
      \<longlongrightarrow> midX data) (at_left 0.6)"
proof -
  let ?f = "\<lambda>t. startX data * (1 - easeOutQuart (t / 0.6)) + midX data * easeOutQuart (t / 0.6)
          + sin (t * pi * 3 + of_int index) * (1 - easeOutQuart (t / 0.6)) * 50"
  have "isCont ?f 0.6"
    unfolding easeOutQuart_def by (intro continuous_intros) simp_all
  then have "(?f \<longlongrightarrow> ?f 0.6) (at 0.6)"
    by (simp add: isCont_def)
  moreover have "?f 0.6 = midX data"
    by (simp add: easeOutQuart_def)
  ultimately show ?thesis
    by (simp add: filterlim_at_split)
qed

lemma first_segment_y:
  "((\<lambda>t. startY data * (1 - easeOutQuart (t / 0.6)) + midY data * easeOutQuart (t / 0.6)
          + cos (t * pi * 2.5 + of_int index) * (1 - easeOutQuart (t / 0.6)) * 30)
      \<longlongrightarrow> midY data) (at_left 0.6)"
proof -
  let ?f = "\<lambda>t. startY data * (1 - easeOutQuart (t / 0.6)) + midY data * easeOutQuart (t / 0.6)
          + cos (t * pi * 2.5 + of_int index) * (1 - easeOutQuart (t / 0.6)) * 30"
  have "isCont ?f 0.6"
    unfolding easeOutQuart_def by (intro continuous_intros) simp_all
  then have "(?f \<longlongrightarrow> ?f 0.6) (at 0.6)"
    by (simp add: isCont_def)
  moreover have "?f 0.6 = midY data"
    by (simp add: easeOutQuart_def)
  ultimately show ?thesis
    by (simp add: filterlim_at_split)
qed

lemma pos_x_left_limit:
  "((\<lambda>t. pos_x (getPosition data index t)) \<longlongrightarrow> midX data) (at_left 0.6)"
proof -
  have "eventually (\<lambda>t. startX data * (1 - easeOutQuart (t / 0.6))
            + midX data * easeOutQuart (t / 0.6)
            + sin (t * pi * 3 + of_int index) * (1 - easeOutQuart (t / 0.6)) * 50
          = pos_x (getPosition data index t)) (at_left 0.6)"
    unfolding eventually_at_filter
    by (rule always_eventually) (simp add: getPosition_def Let_def)
  then show ?thesis
    using first_segment_x by (rule Lim_transform_eventually[rotated])
qed

lemma pos_y_left_limit:
  "((\<lambda>t. pos_y (getPosition data index t)) \<longlongrightarrow> midY data) (at_left 0.6)"
proof -
  have "eventually (\<lambda>t. startY data * (1 - easeOutQuart (t / 0.6))
            + midY data * easeOutQuart (t / 0.6)
            + cos (t * pi * 2.5 + of_int index) * (1 - easeOutQuart (t / 0.6)) * 30
          = pos_y (getPosition data index t)) (at_left 0.6)"
    unfolding eventually_at_filter
    by (rule always_eventually) (simp add: getPosition_def Let_def)
  then show ?thesis
    using first_segment_y by (rule Lim_transform_eventually[rotated])
qed

text \<open>
  C10. The two segments of the path meet at \<open>t = 0.6\<close>: the position tends to
  \<open>(midX, midY)\<close> as \<open>t\<close> approaches \<open>0.6\<close> from below, and it is \<open>(midX, midY)\<close> at
  \<open>t = 0.6\<close>, where the second segment starts.
\<close>

theorem segments_meet:
  "((\<lambda>t. pos_x (getPosition data index t)) \<longlongrightarrow> midX data) (at_left 0.6)
   \<and> ((\<lambda>t. pos_y (getPosition data index t)) \<longlongrightarrow> midY data) (at_left 0.6)
   \<and> pos_x (getPosition data index 0.6) = midX data
   \<and> pos_y (getPosition data index 0.6) = midY data"
proof -
  have "pos_x (getPosition data index 0.6) = midX data"
    by (simp add: getPosition_def easeInOutCubic_def)
  moreover have "pos_y (getPosition data index 0.6) = midY data"
    by (simp add: getPosition_def easeInOutCubic_def)
  ultimately show ?thesis
    using pos_x_left_limit pos_y_left_limit by blast
qed

section \<open>Properties of the frame loop\<close>

text \<open>
  A run of the session is a list of events applied to the freshly mounted component.
  The host's callback is the same function for the whole session (as in \<open>App.tsx\<close>,
  which does not re-render while the splash screen is shown), so the effect only runs
  again when \<open>fadeOut\<close> changes.
\<close>

lemmas loop_defs = turn_def runTimeouts_def runFrames_def animate_def setProgress_def
  setTimeout_def request_next_def requestAnimationFrame_def cancelAnimationFrame_def
  effect_def cleanup_def setFadeOut_def totalDuration_def fadeOutDuration_def

lemma run_Nil: "run [] w = w"
  by (simp add: run_def)

lemma run_Cons: "run (e # es) w = run es (step e w)"
  by (simp add: run_def)

lemma run_append: "run (es @ fs) w = run fs (run es w)"
  by (simp add: run_def)

lemma starting_mount: "starting mount"
  by (simp add: starting_def mount_def initial_def loop_defs)

lemma starting_stay: "starting w \<Longrightarrow> starting (turn 0 w)"
  by (auto simp add: starting_def loop_defs Let_def)

lemma starting_leave: "starting w \<Longrightarrow> t \<noteq> 0 \<Longrightarrow> entering t (turn t w)"
  by (auto simp add: starting_def entering_def loop_defs Let_def)

lemma entering_stay: "entering s w \<Longrightarrow> t < s + totalDuration \<Longrightarrow> entering s (turn t w)"
  by (auto simp add: entering_def loop_defs Let_def)

lemma entering_leave: "entering s w \<Longrightarrow> s + totalDuration \<le> t \<Longrightarrow> holding (t + 800) (turn t w)"
  by (auto simp add: entering_def holding_def loop_defs Let_def)

lemma holding_stay: "holding d w \<Longrightarrow> t < d \<Longrightarrow> holding d (turn t w)"
  by (auto simp add: holding_def loop_defs Let_def)

lemma holding_leave: "holding d w \<Longrightarrow> d \<le> t \<Longrightarrow> fading (t + fadeOutDuration) (turn t w)"
  by (auto simp add: holding_def fading_def loop_defs Let_def split: option.splits)

lemma fading_stay: "fading d w \<Longrightarrow> t < d \<Longrightarrow> fading d (turn t w)"
  by (auto simp add: fading_def loop_defs Let_def split: option.splits)

lemma fading_leave: "fading d w \<Longrightarrow> d \<le> t \<Longrightarrow> completed t (turn t w)"
  by (auto simp add: fading_def completed_def loop_defs Let_def split: option.splits)

lemma completed_stay: "completed c w \<Longrightarrow> completed c (turn t w)"
  by (auto simp add: completed_def loop_defs Let_def split: option.splits)

lemma entering_run:
  "entering s w \<Longrightarrow> \<forall>t\<in>set ts. t < s + totalDuration \<Longrightarrow> entering s (run (map Turn ts) w)"
  by (induction ts arbitrary: w) (simp_all add: run_Nil run_Cons entering_stay)

lemma holding_run:
  "holding d w \<Longrightarrow> \<forall>t\<in>set ts. t < d \<Longrightarrow> holding d (run (map Turn ts) w)"
  by (induction ts arbitrary: w) (simp_all add: run_Nil run_Cons holding_stay)

lemma fading_run:
  "fading d w \<Longrightarrow> \<forall>t\<in>set ts. t < d \<Longrightarrow> fading d (run (map Turn ts) w)"
  by (induction ts arbitrary: w) (simp_all add: run_Nil run_Cons fading_stay)

lemma completed_run: "completed c w \<Longrightarrow> completed c (run (map Turn ts) w)"
  by (induction ts arbitrary: w) (simp_all add: run_Nil run_Cons completed_stay)

lemma session_phase_turn: "session_phase w \<Longrightarrow> session_phase (turn t w)"
proof -
  assume "session_phase w"
  then consider "starting w" | s where "entering s w" | d where "holding d w"
    | d where "fading d w" | c where "completed c w"
    unfolding session_phase_def by blast
  then show ?thesis
  proof cases
    case 1
    then show ?thesis
      using starting_stay[of w] starting_leave[of w t] unfolding session_phase_def by (cases "t = 0") blast+
  next
    case 2
    then show ?thesis
      using entering_stay[of s w t] entering_leave[of s w t] unfolding session_phase_def
      by (cases "t < s + totalDuration") (simp_all, blast+)
  next
    case 3
    then show ?thesis
      using holding_stay[of d w t] holding_leave[of d w t] unfolding session_phase_def
      by (cases "t < d") (simp_all, blast+)
  next
    case 4
    then show ?thesis
      using fading_stay[of d w t] fading_leave[of d w t] unfolding session_phase_def
      by (cases "t < d") (simp_all, blast+)
  next
    case 5
    then show ?thesis
      using completed_stay[of c w t] unfolding session_phase_def by blast
  qed
qed

lemma session_phase_run: "session_phase w \<Longrightarrow> session_phase (run (map Turn ts) w)"
  by (induction ts arbitrary: w) (simp_all add: run_Nil run_Cons session_phase_turn)

lemma completion_at_most_once: "length (completions (run (map Turn ts) mount)) \<le> 1"
proof -
  have "session_phase (run (map Turn ts) mount)"
    using starting_mount by (intro session_phase_run) (simp add: session_phase_def)
  then show ?thesis
    by (auto simp add: session_phase_def starting_def entering_def holding_def fading_def completed_def)
qed

lemma completions_animate: "completions (animate fo t w) = completions w"
  by (simp add: loop_defs Let_def split: option.splits)

lemma completions_fire: "prefix (completions w) (completions (fire cb t w))"
  by (cases cb) (simp_all add: loop_defs split: option.splits)

lemma completions_frames:
  "completions (fold (\<lambda>(h, fo). animate fo t) cbs w) = completions w"
  by (induction cbs arbitrary: w) (simp_all add: completions_animate split: prod.splits)

lemma completions_timeouts:
  "prefix (completions w) (completions (fold (\<lambda>(d, cb). fire cb t) due w))"
proof (induction due arbitrary: w)
  case Nil
  then show ?case by simp
next
  case (Cons a due)
  obtain d cb where a: "a = (d, cb)" by (cases a)
  have "prefix (completions w) (completions (fire cb t w))" by (rule completions_fire)
  also have "prefix \<dots> (completions (fold (\<lambda>(d, cb). fire cb t) due (fire cb t w)))"
    by (rule Cons.IH)
  finally show ?case by (simp add: a)
qed

lemma completions_turn: "prefix (completions w) (completions (turn t w))"
  using completions_timeouts[of "w\<lparr>timeouts := filter (\<lambda>(d, _). \<not> d \<le> t) (timeouts w)\<rparr>" t]
  by (simp add: turn_def runFrames_def runTimeouts_def Let_def completions_frames)

lemma completions_unmount: "completions (unmount w) = completions w"
  by (simp add: unmount_def cleanup_def cancelAnimationFrame_def split: option.splits)

lemma completions_step: "prefix (completions w) (completions (step e w))"
  by (cases e) (simp_all add: completions_turn completions_unmount)

lemma completions_run: "prefix (completions w) (completions (run es w))"
proof (induction es arbitrary: w)
  case Nil
  then show ?case by (simp add: run_Nil)
next
  case (Cons e es)
  have "prefix (completions w) (completions (step e w))" by (rule completions_step)
  also have "prefix \<dots> (completions (run es (step e w)))" by (rule Cons.IH)
  finally show ?case by (simp add: run_Cons)
qed

text \<open>
  C1. A full run: a first frame at \<open>t0\<close>, frames \<open>es\<close> before \<open>t0 + totalDuration\<close>
  (Entering), the frame \<open>T1\<close> that reaches progress 1, turns \<open>hs\<close> during the 800 ms
  pause, the turn \<open>T2\<close> at which the pause timer fires, frames \<open>fs\<close> during the
  1200 ms fade, the turn \<open>T3\<close> at which the fade is over, and anything afterwards. The
  callback \<open>onComplete\<close> is invoked exactly once, at \<open>T3\<close>, and in no prefix of the run
  that stops before the fade has ended.
\<close>

theorem completion_exactly_once:
  assumes "t0 \<noteq> 0"
    and "\<forall>t\<in>set es. t < t0 + totalDuration"
    and "t0 + totalDuration \<le> T1"
    and "\<forall>t\<in>set hs. t < T1 + 800"
    and "T1 + 800 \<le> T2"
    and "\<forall>t\<in>set fs. t < T2 + fadeOutDuration"
    and "T2 + fadeOutDuration \<le> T3"
  shows "completions (run (map Turn (t0 # es @ [T1] @ hs @ [T2] @ fs @ [T3] @ rest)) mount) = [T3]
    \<and> (\<forall>p. prefix p (t0 # es @ [T1] @ hs @ [T2] @ fs) \<longrightarrow>
          completions (run (map Turn p) mount) = [])"
proof -
  let ?w1 = "run (map Turn (t0 # es)) mount"
  let ?w2 = "run (map Turn (T1 # hs)) ?w1"
  let ?w3 = "run (map Turn (T2 # fs)) ?w2"
  let ?w4 = "run (map Turn (T3 # rest)) ?w3"
  have "entering t0 (turn t0 mount)"
    using starting_mount assms(1) by (rule starting_leave)
  then have 1: "entering t0 ?w1"
    using assms(2) by (simp add: run_Cons entering_run)
  then have "holding (T1 + 800) (turn T1 ?w1)"
    using assms(3) by (rule entering_leave)
  then have 2: "holding (T1 + 800) ?w2"
    using assms(4) by (simp add: run_Cons holding_run)
  then have "fading (T2 + fadeOutDuration) (turn T2 ?w2)"
    using assms(5) by (rule holding_leave)
  then have 3: "fading (T2 + fadeOutDuration) ?w3"
    using assms(6) by (simp add: run_Cons fading_run)
  then have "completed T3 (turn T3 ?w3)"
    using assms(7) by (rule fading_leave)
  then have 4: "completed T3 ?w4"
    by (simp add: run_Cons completed_run)
  have w3: "run (map Turn (t0 # es @ [T1] @ hs @ [T2] @ fs)) mount = ?w3"
    by (simp add: run_append run_Cons run_Nil)
  have w4: "run (map Turn (t0 # es @ [T1] @ hs @ [T2] @ fs @ [T3] @ rest)) mount = ?w4"
    by (simp add: run_append run_Cons run_Nil)
  have a: "completions (run (map Turn (t0 # es @ [T1] @ hs @ [T2] @ fs @ [T3] @ rest)) mount) = [T3]"
    unfolding w4 using 4 by (simp add: completed_def)
  have b: "completions (run (map Turn p) mount) = []"
    if "prefix p (t0 # es @ [T1] @ hs @ [T2] @ fs)" for p
  proof -
    from that obtain q where q: "t0 # es @ [T1] @ hs @ [T2] @ fs = p @ q"
      by (auto simp: prefix_def)
    have "prefix (completions (run (map Turn p) mount))
            (completions (run (map Turn q) (run (map Turn p) mount)))"
      by (rule completions_run)
    also have "run (map Turn q) (run (map Turn p) mount) = ?w3"
      unfolding w3[symmetric] q by (simp add: run_append)
    also have "completions ?w3 = []"
      using 3 by (simp add: fading_def)
    finally show ?thesis by simp
  qed
  from a b show ?thesis by blast
qed

theorem completion_exactly_once_witness:
  "(1000::real) \<noteq> 0 \<and> (2000::real) < 1000 + totalDuration
   \<and> 1000 + totalDuration \<le> (5500::real) \<and> (5600::real) < 5500 + 800
   \<and> (5500::real) + 800 \<le> 6300 \<and> (7000::real) < 6300 + fadeOutDuration
   \<and> 6300 + fadeOutDuration \<le> (7500::real)
   \<and> completions (run (map Turn [1000, 2000, 5500, 5600, 6300, 7000, 7500, 8000]) mount)
       = [7500]
   \<and> completions (run (map Turn [1000, 2000, 5500, 5600, 6300, 7000]) mount) = []"
proof -
  have h: "(1000::real) \<noteq> 0 \<and> (2000::real) < 1000 + totalDuration
     \<and> 1000 + totalDuration \<le> (5500::real) \<and> (5600::real) < 5500 + 800
     \<and> (5500::real) + 800 \<le> 6300 \<and> (7000::real) < 6300 + fadeOutDuration
     \<and> 6300 + fadeOutDuration \<le> (7500::real)"
    by (simp add: totalDuration_def fadeOutDuration_def)
  have c: "completions (run (map Turn [1000, 2000, 5500, 5600, 6300, 7000, 7500, 8000]) mount)
        = [7500]
     \<and> (\<forall>p. prefix p [1000, 2000, 5500, 5600, 6300, 7000] \<longrightarrow>
           completions (run (map Turn p) mount) = [])"
    using h completion_exactly_once
      [of 1000 "[2000]" 5500 "[5600]" 6300 "[7000]" 7500 "[8000]"]
    by simp
  then have "completions (run (map Turn [1000, 2000, 5500, 5600, 6300, 7000]) mount) = []"
    by blast
  with h c show ?thesis by blast
qed

lemma progress_bound_mono: "c \<le> c' \<Longrightarrow> progress_bound c w \<le> progress_bound c' w"
  by (auto simp add: progress_bound_def totalDuration_def min_def split: option.splits)

lemma animate_progress:
  "mounted w \<Longrightarrow> startTimeRef w = Some s \<Longrightarrow> s \<noteq> 0 \<Longrightarrow>
     progress (animate fo t w) = min ((t - s) / totalDuration) 1"
  by (simp add: animate_def setProgress_def setTimeout_def request_next_def
      requestAnimationFrame_def Let_def)

lemma animate_bounded:
  assumes "mounted w" "progress w \<le> progress_bound c w" "c \<le> t"
  shows "progress w \<le> progress (animate fo t w)
         \<and> mounted (animate fo t w)
         \<and> progress (animate fo t w) \<le> progress_bound t (animate fo t w)"
  using assms
  by (auto simp add: progress_bound_def animate_def setProgress_def setTimeout_def request_next_def
      requestAnimationFrame_def Let_def totalDuration_def min_def split: option.splits if_splits)

lemma frames_bounded:
  "mounted w \<Longrightarrow> progress w \<le> progress_bound c w \<Longrightarrow> c \<le> t \<Longrightarrow>
     progress w \<le> progress (fold (\<lambda>(h, fo). animate fo t) cbs w)
     \<and> mounted (fold (\<lambda>(h, fo). animate fo t) cbs w)
     \<and> progress (fold (\<lambda>(h, fo). animate fo t) cbs w)
          \<le> progress_bound t (fold (\<lambda>(h, fo). animate fo t) cbs w)"
proof (induction cbs arbitrary: w c)
  case Nil
  then show ?case using progress_bound_mono[of c t w] by simp
next
  case (Cons a cbs)
  obtain h fo where a: "a = (h, fo)" by (cases a)
  note s = animate_bounded[OF Cons.prems, of fo]
  have "progress (animate fo t w) \<le> progress (fold (\<lambda>(h, fo). animate fo t) cbs (animate fo t w))
     \<and> mounted (fold (\<lambda>(h, fo). animate fo t) cbs (animate fo t w))
     \<and> progress (fold (\<lambda>(h, fo). animate fo t) cbs (animate fo t w))
          \<le> progress_bound t (fold (\<lambda>(h, fo). animate fo t) cbs (animate fo t w))"
    using s by (intro Cons.IH[of _ t]) simp_all
  then show ?case using s by (simp add: a)
qed

lemma fire_keeps:
  "progress (fire cb t w) = progress w \<and> startTimeRef (fire cb t w) = startTimeRef w
   \<and> mounted (fire cb t w) = mounted w"
  by (cases cb) (simp_all add: loop_defs split: option.splits)

lemma timeouts_keep:
  "progress (fold (\<lambda>(d, cb). fire cb t) due w) = progress w
   \<and> startTimeRef (fold (\<lambda>(d, cb). fire cb t) due w) = startTimeRef w
   \<and> mounted (fold (\<lambda>(d, cb). fire cb t) due w) = mounted w"
  by (induction due arbitrary: w) (simp_all add: fire_keeps split: prod.splits)

lemma runTimeouts_keeps:
  "progress (runTimeouts t w) = progress w
   \<and> startTimeRef (runTimeouts t w) = startTimeRef w
   \<and> mounted (runTimeouts t w) = mounted w"
  by (simp add: runTimeouts_def Let_def timeouts_keep)

lemma turn_bounded:
  assumes "mounted w" "progress w \<le> progress_bound c w" "c \<le> t"
  shows "progress w \<le> progress (turn t w) \<and> mounted (turn t w)
         \<and> progress (turn t w) \<le> progress_bound t (turn t w)"
proof -
  let ?v = "(runTimeouts t w)\<lparr>frameRequests := []\<rparr>"
  have "mounted ?v" "progress ?v \<le> progress_bound c ?v" "progress ?v = progress w"
    using assms runTimeouts_keeps[of t w] by (simp_all add: progress_bound_def)
  then show ?thesis
    using frames_bounded[of ?v c t "frameRequests (runTimeouts t w)"] assms(3)
    by (simp add: turn_def runFrames_def Let_def)
qed

lemma run_bounded:
  "mounted w \<Longrightarrow> progress w \<le> progress_bound c w \<Longrightarrow> sorted (c # ts) \<Longrightarrow>
     progress w \<le> progress (run (map Turn ts) w)"
proof (induction ts arbitrary: w c)
  case Nil
  then show ?case by (simp add: run_Nil)
next
  case (Cons t ts)
  have ct: "c \<le> t" using Cons.prems(3) by simp
  note s = turn_bounded[OF Cons.prems(1,2) ct]
  have "progress (turn t w) \<le> progress (run (map Turn ts) (turn t w))"
    using s Cons.prems(3) by (intro Cons.IH[of _ t]) simp_all
  then show ?case using s by (simp add: run_Cons)
qed

lemma run_extend_bounded:
  "mounted w \<Longrightarrow> progress w \<le> progress_bound c w \<Longrightarrow> sorted (c # ts @ us) \<Longrightarrow>
     progress (run (map Turn ts) w) \<le> progress (run (map Turn (ts @ us)) w)"
proof (induction ts arbitrary: w c)
  case Nil
  then show ?case using run_bounded[of w c us] by (simp add: run_Nil)
next
  case (Cons t ts)
  have ct: "c \<le> t" using Cons.prems(3) by simp
  note s = turn_bounded[OF Cons.prems(1,2) ct]
  have "progress (run (map Turn ts) (turn t w)) \<le> progress (run (map Turn (ts @ us)) (turn t w))"
    using s Cons.prems(3) by (intro Cons.IH[of _ t]) simp_all
  then show ?case by (simp add: run_Cons)
qed

lemma mount_bounded: "mounted mount \<and> progress mount \<le> progress_bound c mount"
  by (simp add: mount_def initial_def effect_def request_next_def requestAnimationFrame_def
      progress_bound_def)

text \<open>
  C5. Progress never decreases with time: extending a run whose instants are in
  nondecreasing order by later instants never yields a smaller \<open>progress\<close>; and a
  frame stores \<open>min (elapsed / totalDuration) 1\<close>, which a later frame never
  undercuts.
\<close>

theorem progress_monotone:
  "(sorted (ts @ us) \<longrightarrow>
      progress (run (map Turn ts) mount) \<le> progress (run (map Turn (ts @ us)) mount))
   \<and> (mounted w \<and> startTimeRef w = Some s \<and> s \<noteq> 0 \<and> t \<le> t' \<longrightarrow>
        progress (animate fo t w) = min ((t - s) / totalDuration) 1
        \<and> progress (animate fo t w) \<le> progress (animate fo' t' (animate fo t w)))"
proof -
  have a: "progress (run (map Turn ts) mount) \<le> progress (run (map Turn (ts @ us)) mount)"
    if srt: "sorted (ts @ us)"
  proof (cases "ts @ us")
    case Nil
    then show ?thesis by simp
  next
    case (Cons x xs)
    then have "sorted (x # ts @ us)" using srt by auto
    then show ?thesis
      using mount_bounded[of x] by (intro run_extend_bounded[of _ x]) simp_all
  qed
  have b: "progress (animate fo t w) = min ((t - s) / totalDuration) 1
        \<and> progress (animate fo t w) \<le> progress (animate fo' t' (animate fo t w))"
    if h: "mounted w" "startTimeRef w = Some s" "s \<noteq> 0" "t \<le> t'"
  proof -
    have p: "progress w' \<le> progress_bound t w'" if "w' = animate fo t w" for w'
      using that h by (simp add: progress_bound_def animate_progress animate_def setProgress_def setTimeout_def request_next_def
      requestAnimationFrame_def Let_def)
    have m: "mounted (animate fo t w)" using h by (simp add: animate_def setProgress_def setTimeout_def request_next_def
      requestAnimationFrame_def Let_def)
    show ?thesis using animate_bounded[OF m p[OF refl] h(4), of fo'] animate_progress[OF h(1,2,3)] by simp
  qed
  from a b show ?thesis by blast
qed

theorem progress_monotone_witness:
  "sorted ([1000, 2000] @ [3000 :: real])
   \<and> progress (run (map Turn [1000, 2000]) mount) = 2/9
   \<and> progress (run (map Turn ([1000, 2000] @ [3000])) mount) = 4/9
   \<and> progress (run (map Turn [1000, 2000]) mount)
        \<le> progress (run (map Turn ([1000, 2000] @ [3000])) mount)
   \<and> mounted (turn 1000 mount) \<and> startTimeRef (turn 1000 mount) = Some 1000
   \<and> (1000::real) \<noteq> 0 \<and> (2000::real) \<le> 3000
   \<and> progress (animate False 2000 (turn 1000 mount)) = min ((2000 - 1000) / totalDuration) 1
   \<and> progress (animate False 2000 (turn 1000 mount))
        \<le> progress (animate False 3000 (animate False 2000 (turn 1000 mount)))"
proof -
  have h: "sorted ([1000, 2000] @ [3000 :: real])"
    by simp
  have v: "progress (run (map Turn [1000, 2000]) mount) = 2/9"
    "progress (run (map Turn ([1000, 2000] @ [3000])) mount) = 4/9"
    by code_simp+
  have k: "mounted (turn 1000 mount) \<and> startTimeRef (turn 1000 mount) = Some 1000
      \<and> (1000::real) \<noteq> 0 \<and> (2000::real) \<le> 3000"
    by code_simp
  show ?thesis
    using h v k
      progress_monotone [of "[1000, 2000]" "[3000]" "turn 1000 mount" 1000 2000 3000 False False]
    by blast
qed

lemma fade_started_later: "fade_started_by c w \<Longrightarrow> c \<le> c' \<Longrightarrow> fade_started_by c' w"
  by (fastforce simp add: fade_started_by_def)

lemma fade_started_mount: "fade_started_by c mount"
  by (simp add: fade_started_by_def mount_def initial_def effect_def request_next_def
      requestAnimationFrame_def)

lemma fade_started_animate:
  "fade_started_by c w \<Longrightarrow> fade_started_by c (animate fo c w)"
  by (auto simp add: fade_started_by_def animate_def setProgress_def setTimeout_def
      request_next_def requestAnimationFrame_def Let_def totalDuration_def min_def
      split: option.splits if_splits)

lemma fade_started_frames:
  "fade_started_by c w \<Longrightarrow> fade_started_by c (fold (\<lambda>(h, fo). animate fo c) cbs w)"
  by (induction cbs arbitrary: w) (simp_all add: fade_started_animate split: prod.splits)

lemma fade_started_fire:
  assumes "fade_started_by c w"
    and "cb = StartFade \<longrightarrow>
           (\<exists>s. startTimeRef w = Some s \<and> s \<noteq> 0 \<and> s + totalDuration + 800 \<le> c)"
  shows "fade_started_by c (fire cb c w)"
  using assms
  by (cases cb)
    (auto simp add: fade_started_by_def setFadeOut_def setTimeout_def effect_def cleanup_def
      request_next_def requestAnimationFrame_def cancelAnimationFrame_def
      split: option.splits)

lemma fire_keeps_start: "startTimeRef (fire cb t w) = startTimeRef w"
  by (cases cb)
    (simp_all add: setFadeOut_def setTimeout_def effect_def cleanup_def
      request_next_def requestAnimationFrame_def cancelAnimationFrame_def split: option.splits)

lemma fade_started_timeouts:
  assumes "fade_started_by c w"
    and "\<forall>d. (d, StartFade) \<in> set due \<longrightarrow>
           (\<exists>s. startTimeRef w = Some s \<and> s \<noteq> 0 \<and> s + totalDuration + 800 \<le> c)"
  shows "fade_started_by c (fold (\<lambda>(d, cb). fire cb c) due w)"
  using assms
proof (induction due arbitrary: w)
  case Nil
  then show ?case by simp
next
  case (Cons a due)
  obtain d cb where a: "a = (d, cb)" by (cases a)
  have 1: "fade_started_by c (fire cb c w)"
    using Cons.prems a by (intro fade_started_fire) auto
  have 2: "\<forall>d. (d, StartFade) \<in> set due \<longrightarrow>
     (\<exists>s. startTimeRef (fire cb c w) = Some s \<and> s \<noteq> 0 \<and> s + totalDuration + 800 \<le> c)"
    using Cons.prems(2) by (simp add: fire_keeps_start)
  show ?case using Cons.IH[OF 1 2] by (simp add: a)
qed

lemma fade_started_runTimeouts:
  assumes "fade_started_by c w" "c \<le> t"
  shows "fade_started_by t (runTimeouts t w)"
proof -
  let ?w1 = "w\<lparr>timeouts := filter (\<lambda>(d, _). \<not> d \<le> t) (timeouts w)\<rparr>"
  let ?due = "filter (\<lambda>(d, _). d \<le> t) (timeouts w)"
  have 1: "fade_started_by t ?w1"
    using assms by (fastforce simp add: fade_started_by_def)
  have 2: "\<forall>d. (d, StartFade) \<in> set ?due \<longrightarrow>
     (\<exists>s. startTimeRef ?w1 = Some s \<and> s \<noteq> 0 \<and> s + totalDuration + 800 \<le> t)"
    using assms(1) by (fastforce simp add: fade_started_by_def)
  show ?thesis
    using fade_started_timeouts[OF 1 2] by (simp add: runTimeouts_def Let_def)
qed

lemma fade_started_turn:
  assumes "fade_started_by c w" "c \<le> t"
  shows "fade_started_by t (turn t w)"
proof -
  have "fade_started_by t ((runTimeouts t w)\<lparr>frameRequests := []\<rparr>)"
    using fade_started_runTimeouts[OF assms] by (simp add: fade_started_by_def)
  then show ?thesis
    unfolding turn_def runFrames_def Let_def by (rule fade_started_frames)
qed

lemma fade_started_run:
  "fade_started_by c w \<Longrightarrow> sorted (c # ts) \<Longrightarrow> \<forall>x\<in>set (c # ts). x \<le> now \<Longrightarrow>
     fade_started_by now (run (map Turn ts) w)"
proof (induction ts arbitrary: c w)
  case Nil
  then show ?case by (simp add: run_Nil fade_started_later)
next
  case (Cons t ts)
  have "fade_started_by t (turn t w)"
    using Cons.prems by (intro fade_started_turn[of c]) simp_all
  then have "fade_started_by now (run (map Turn ts) (turn t w))"
    using Cons.prems by (intro Cons.IH) auto
  then show ?case by (simp add: run_Cons)
qed

lemma fade_never_early:
  assumes "sorted ts" "\<forall>x\<in>set ts. x \<le> now" "fadeOut (run (map Turn ts) mount)"
  shows "\<exists>s. startTimeRef (run (map Turn ts) mount) = Some s \<and> s + totalDuration + 800 \<le> now"
proof -
  have "fade_started_by now (run (map Turn ts) mount)"
  proof (cases ts)
    case Nil
    then show ?thesis by (simp add: run_Nil fade_started_mount)
  next
    case (Cons t us)
    then have "sorted (t # ts)" "\<forall>x\<in>set (t # ts). x \<le> now" using assms by auto
    then show ?thesis using fade_started_mount[of t] by (rule fade_started_run[rotated])
  qed
  then show ?thesis using assms(3) by (auto simp add: fade_started_by_def)
qed

text \<open>
  C4. In every state a session reaches, for every \<open>t\<close> in \<open>[0, 1]\<close> and every clock
  value not earlier than the turns that led to the state, the per-letter opacity
  \<open>min (t * 2.5) 1\<close>, multiplied while fading out by
  \<open>max 0 (1 - (now - (start + totalDuration + 800)) / fadeOutDuration)\<close>, lies in
  \<open>[0, 1]\<close>: \<open>fadeOut\<close> is only set once the clock has passed
  \<open>start + totalDuration + 800\<close>.
\<close>

theorem opacity_in_unit_interval:
  assumes "sorted ts" and "\<forall>x\<in>set ts. x \<le> now" and "0 \<le> t" and "t \<le> 1"
    and "fadeOut (run (map Turn ts) mount) \<longrightarrow>
           startTimeRef (run (map Turn ts) mount) = Some start"
  shows "0 \<le> opacity t (fadeOut (run (map Turn ts) mount)) start now
         \<and> opacity t (fadeOut (run (map Turn ts) mount)) start now \<le> 1"
proof -
  have "fadeOut (run (map Turn ts) mount) \<longrightarrow> start + totalDuration + 800 \<le> now"
    using fade_never_early[OF assms(1,2)] assms(5) by auto
  then show ?thesis using assms(3,4) by (intro opacity_bounds)
qed

theorem opacity_in_unit_interval_witness:
  "sorted [1000, 5500, 6300 :: real]
   \<and> (1000::real) \<le> 6900 \<and> (5500::real) \<le> 6900 \<and> (6300::real) \<le> 6900
   \<and> (0::real) \<le> 1 \<and> (1::real) \<le> 1
   \<and> fadeOut (run (map Turn [1000, 5500, 6300]) mount)
   \<and> startTimeRef (run (map Turn [1000, 5500, 6300]) mount) = Some 1000
   \<and> opacity 1 (fadeOut (run (map Turn [1000, 5500, 6300]) mount)) 1000 6900 = 1/2
   \<and> 0 \<le> opacity 1 (fadeOut (run (map Turn [1000, 5500, 6300]) mount)) 1000 6900
   \<and> opacity 1 (fadeOut (run (map Turn [1000, 5500, 6300]) mount)) 1000 6900 \<le> 1"
proof -
  have f: "fadeOut (run (map Turn [1000, 5500, 6300]) mount)"
    and s: "startTimeRef (run (map Turn [1000, 5500, 6300]) mount) = Some 1000"
    by code_simp+
  have v: "opacity 1 True 1000 6900 = 1/2"
    by (simp add: opacity_def totalDuration_def fadeOutDuration_def)
  have h: "sorted [1000, 5500, 6300 :: real]"
    "\<forall>x\<in>set [1000, 5500, 6300 :: real]. x \<le> 6900"
    by simp_all
  show ?thesis
    using f s v opacity_in_unit_interval [OF h, of 1 1000] by simp
qed

lemma idle_turn: "idle w \<Longrightarrow> turn t w = w"
  by (cases w) (simp add: idle_def loop_defs)

lemma idle_run: "idle w \<Longrightarrow> run (map Turn ts) w = w"
  by (induction ts) (simp_all add: run_Nil run_Cons idle_turn)

lemma entering_unmount: "entering s w \<Longrightarrow> idle (unmount w) \<and> completions (unmount w) = []"
  by (auto simp add: entering_def idle_def unmount_def loop_defs)

lemma unmount_while_entering:
  "entering s w \<Longrightarrow> run (map Turn ts) (unmount w) = unmount w
     \<and> completions (run (map Turn ts) (unmount w)) = []"
  using entering_unmount[of s w] idle_run[of "unmount w" ts] by simp

text \<open>
  C2, at a concrete session: the first frame at 1000, the frame at 5500 reaches progress
  1 and creates the 800 ms timer. The cleanup only cancels the requested frame, so
  when the component is unmounted during the pause (or during the fade) the pending
  timers still run and \<open>onComplete\<close> is invoked at 7500, after the unmount.
\<close>

theorem unmount_leaves_timers:
  "completions (run [Turn 1000, Turn 5500, Unmount, Turn 6300, Turn 7500] mount) = [7500]
   \<and> completions (run [Turn 1000, Turn 5500, Turn 6300, Unmount, Turn 7500] mount) = [7500]"
  by code_simp

end
